theory Spec2Isabelle
  imports Complex_Main
begin

section \<open>Exceptions\<close>

text \<open>
  The exceptions the notebook's code can raise, directly or through the library
  functions it calls: \<^verbatim>\<open>KeyError\<close> (raised by \<^verbatim>\<open>MarkovNode.find\<close>),
  \<^verbatim>\<open>IndexError\<close>, \<^verbatim>\<open>OverflowError\<close> and \<^verbatim>\<open>ValueError\<close> (raised inside
  \<^verbatim>\<open>random.choices\<close>), and \<^verbatim>\<open>RecursionError\<close> (raised when comparing two nodes
  with \<^verbatim>\<open>==\<close> recurses beyond the interpreter's recursion limit).
\<close>

datatype error = KeyError | IndexError | OverflowError | ValueError | RecursionError

section \<open>WeightMap\<close>

text \<open>
  \<^verbatim>\<open>class WeightMap(defaultdict)\<close> with \<^verbatim>\<open>default_factory = int\<close>. A Python dict
  keeps its entries in insertion order, and \<^verbatim>\<open>keys()\<close> and \<^verbatim>\<open>values()\<close> list them
  in that order, so the mapping is an association list. Weights are Python integers.
\<close>

type_synonym 'k WeightMap = "('k \<times> int) list"

definition dict_keys :: "'k WeightMap \<Rightarrow> 'k list" where
  "dict_keys self = map fst self"

definition dict_values :: "'k WeightMap \<Rightarrow> int list" where
  "dict_values self = map snd self"

subsection \<open>random.choices\<close>

text \<open>
  \<^verbatim>\<open>__call__\<close> is \<^verbatim>\<open>choices(list(self.keys()), list(self.values()))[0]\<close>.
  The library function, for \<^verbatim>\<open>k = 1\<close> and weights given (CPython 3.10, the version
  recorded in the notebook):
  \<^verbatim>\<open>
    n = len(population)
    cum_weights = list(accumulate(weights))
    if len(cum_weights) != n: raise ValueError
    total = cum_weights[-1] + 0.0
    if total <= 0.0: raise ValueError
    hi = n - 1
    return [population[bisect(cum_weights, random() * total, 0, hi)]]
  \<close>
  \<^verbatim>\<open>cum_weights[-1]\<close> raises \<^verbatim>\<open>IndexError\<close> on the empty list.

  \<^verbatim>\<open>cum_weights[-1] + 0.0\<close> converts the integer total to a double, rounding to
  nearest (ties to even), and raises \<^verbatim>\<open>OverflowError\<close> when the rounded value is not
  a finite double: that is when the magnitude of the total is \<open>2 ^ 1024 - 2 ^ 970\<close> or
  more. Rounding keeps the sign, and an integer other than 0 is not rounded to 0, so
  \<^verbatim>\<open>total <= 0.0\<close> holds exactly when the integer total is at most 0.

  Floating-point arithmetic itself is not modelled. The parameter \<open>x\<close> is the value of
  the expression \<^verbatim>\<open>random() * total\<close> as the interpreter computes it, the point of the
  draw. Whatever the rounding, it satisfies \<open>0 \<le> x < T\<close> for the integer total \<open>T\<close>:
  \<^verbatim>\<open>random()\<close> is at most \<open>1 - 2 ^ -53\<close>, so the product with the double \<open>F\<close>
  next to \<open>T\<close> is at most \<open>F\<close> minus half a unit in the last place of \<open>F\<close> and is
  rounded to a double below \<open>F\<close>, and no double lies strictly between \<open>T\<close> and
  \<open>F\<close>. \<^verbatim>\<open>bisect\<close> compares this double with the integer cumulative weights, and
  Python compares an int with a float exactly.
\<close>

fun accumulate_from :: "int \<Rightarrow> int list \<Rightarrow> int list" where
  "accumulate_from acc [] = []"
| "accumulate_from acc (w # ws) = (acc + w) # accumulate_from (acc + w) ws"

definition accumulate :: "int list \<Rightarrow> int list" where
  "accumulate ws = accumulate_from 0 ws"

text \<open>
  \<^verbatim>\<open>bisect.bisect_right(a, x, lo, hi)\<close>:
  \<^verbatim>\<open>
    while lo < hi:
        mid = (lo + hi) // 2
        if x < a[mid]: hi = mid
        else: lo = mid + 1
    return lo
  \<close>
\<close>

function bisect :: "int list \<Rightarrow> real \<Rightarrow> nat \<Rightarrow> nat \<Rightarrow> nat" where
  "bisect a x lo hi =
     (if lo < hi then
        (let mid = (lo + hi) div 2 in
         if x < real_of_int (a ! mid) then bisect a x lo mid
         else bisect a x (mid + 1) hi)
      else lo)"
  by pat_completeness auto
termination
  by (relation "measure (\<lambda>(a, x, lo, hi). hi - lo)") auto

declare bisect.simps [simp del]

text \<open>The least magnitude of an integer that has no finite double next to it.\<close>

definition float_overflow_bound :: int where
  "float_overflow_bound = 2 ^ 1024 - 2 ^ 970"

definition choices :: "real \<Rightarrow> 'a list \<Rightarrow> int list \<Rightarrow> error + 'a list" where
  "choices x population weights =
     (let n = length population;
          cum_weights = accumulate weights in
      if length cum_weights \<noteq> n then Inl ValueError
      else if cum_weights = [] then Inl IndexError
      else
        (let total_w = last cum_weights in
         if float_overflow_bound \<le> \<bar>total_w\<bar> then Inl OverflowError
         else if total_w \<le> 0 then Inl ValueError
         else
           (let hi = n - 1 in
            Inr [population ! bisect cum_weights x 0 hi])))"

definition WeightMap_call :: "real \<Rightarrow> 'k WeightMap \<Rightarrow> error + 'k" where
  "WeightMap_call x self =
     (case choices x (dict_keys self) (dict_values self) of
        Inl e \<Rightarrow> Inl e
      | Inr [] \<Rightarrow> Inl IndexError
      | Inr (k # _) \<Rightarrow> Inr k)"

text \<open>
  \<^verbatim>\<open>__call__\<close> together with the mapping it leaves: \<^verbatim>\<open>self.keys()\<close> and
  \<^verbatim>\<open>self.values()\<close> are copied into lists, and nothing is assigned to \<^verbatim>\<open>self\<close>.
\<close>

definition WeightMap_call_effect :: "real \<Rightarrow> 'k WeightMap \<Rightarrow> (error + 'k) \<times> 'k WeightMap" where
  "WeightMap_call_effect x self = (WeightMap_call x self, self)"

subsection \<open>dict lookup and item assignment\<close>

text \<open>
  A dict finds a key by walking the entries whose slot the key's hash selects; an entry
  matches when its key is the very object looked up, or when the stored hash equals the
  key's hash and \<^verbatim>\<open>stored_key == key\<close> holds. Entries with the same hash are met in
  insertion order (nothing is ever deleted). The comparison \<^verbatim>\<open>==\<close> is the key
  type's \<^verbatim>\<open>__eq__\<close> and may raise; \<open>hash\<close> and \<open>eq\<close> are the key type's
  \<^verbatim>\<open>__hash__\<close> and \<^verbatim>\<open>__eq__\<close>. The test \<open>k = key\<close> is object identity
  for keys that are references, and is subsumed by \<open>eq\<close> for keys that are values.
\<close>

fun lookdict ::
  "('k \<Rightarrow> int) \<Rightarrow> ('k \<Rightarrow> 'k \<Rightarrow> error + bool) \<Rightarrow> 'k WeightMap \<Rightarrow> 'k \<Rightarrow> error + int option" where
  "lookdict hash eq [] key = Inr None"
| "lookdict hash eq ((k, v) # es) key =
     (if k = key then Inr (Some v)
      else if hash k \<noteq> hash key then lookdict hash eq es key
      else (case eq k key of
              Inl e \<Rightarrow> Inl e
            | Inr b \<Rightarrow> if b then Inr (Some v) else lookdict hash eq es key))"

text \<open>
  \<^verbatim>\<open>d[key] = val\<close>: the value of the matching entry is replaced (the stored key
  object stays), or a new entry is appended.
\<close>

fun insertdict ::
  "('k \<Rightarrow> int) \<Rightarrow> ('k \<Rightarrow> 'k \<Rightarrow> error + bool) \<Rightarrow> 'k WeightMap \<Rightarrow> 'k \<Rightarrow> int \<Rightarrow> error + 'k WeightMap" where
  "insertdict hash eq [] key val = Inr [(key, val)]"
| "insertdict hash eq ((k, v) # es) key val =
     (if k = key then Inr ((k, val) # es)
      else if hash k \<noteq> hash key then
        (case insertdict hash eq es key val of Inl e \<Rightarrow> Inl e | Inr es' \<Rightarrow> Inr ((k, v) # es'))
      else (case eq k key of
              Inl e \<Rightarrow> Inl e
            | Inr b \<Rightarrow>
                if b then Inr ((k, val) # es)
                else (case insertdict hash eq es key val of
                        Inl e \<Rightarrow> Inl e
                      | Inr es' \<Rightarrow> Inr ((k, v) # es'))))"

definition setitem ::
  "('k \<Rightarrow> int) \<Rightarrow> ('k \<Rightarrow> 'k \<Rightarrow> error + bool) \<Rightarrow> 'k WeightMap \<Rightarrow> 'k \<Rightarrow> int \<Rightarrow> error + 'k WeightMap" where
  "setitem hash eq self key val = insertdict hash eq self key val"

text \<open>
  \<^verbatim>\<open>self[key]\<close> on a \<^verbatim>\<open>defaultdict(int)\<close>: a missing key is first stored with
  \<^verbatim>\<open>int()\<close>, that is 0, and that value is returned.
\<close>

definition getitem ::
  "('k \<Rightarrow> int) \<Rightarrow> ('k \<Rightarrow> 'k \<Rightarrow> error + bool) \<Rightarrow> 'k WeightMap \<Rightarrow> 'k \<Rightarrow> error + int \<times> 'k WeightMap" where
  "getitem hash eq self key =
     (case lookdict hash eq self key of
        Inl e \<Rightarrow> Inl e
      | Inr (Some v) \<Rightarrow> Inr (v, self)
      | Inr None \<Rightarrow>
          (case setitem hash eq self key 0 of
             Inl e \<Rightarrow> Inl e
           | Inr self' \<Rightarrow> Inr (0, self')))"

text \<open>
  \<^verbatim>\<open>dict.__eq__\<close>: the sizes agree, and every key of \<open>a\<close> is found in \<open>b\<close>
  with an equal value.
\<close>

fun dict_equal_items ::
  "('k \<Rightarrow> int) \<Rightarrow> ('k \<Rightarrow> 'k \<Rightarrow> error + bool) \<Rightarrow> 'k WeightMap \<Rightarrow> 'k WeightMap \<Rightarrow> error + bool" where
  "dict_equal_items hash eq [] b = Inr True"
| "dict_equal_items hash eq ((key, aval) # es) b =
     (case lookdict hash eq b key of
        Inl e \<Rightarrow> Inl e
      | Inr None \<Rightarrow> Inr False
      | Inr (Some bval) \<Rightarrow> if aval \<noteq> bval then Inr False else dict_equal_items hash eq es b)"

definition dict_equal ::
  "('k \<Rightarrow> int) \<Rightarrow> ('k \<Rightarrow> 'k \<Rightarrow> error + bool) \<Rightarrow> 'k WeightMap \<Rightarrow> 'k WeightMap \<Rightarrow> error + bool" where
  "dict_equal hash eq a b =
     (if length a \<noteq> length b then Inr False else dict_equal_items hash eq a b)"

text \<open>Keys compared by value, as strings and integers are.\<close>

definition value_eq :: "'k \<Rightarrow> 'k \<Rightarrow> error + bool" where
  "value_eq a b = Inr (a = b)"

text \<open>The weight read for a key: the stored weight, or 0 for a key that is not stored.\<close>

definition weight :: "'k WeightMap \<Rightarrow> 'k \<Rightarrow> int" where
  "weight self key = (case map_of self key of None \<Rightarrow> 0 | Some w \<Rightarrow> w)"

text \<open>A hash function on strings for the examples below.\<close>

definition example_hash :: "string \<Rightarrow> int" where
  "example_hash str = foldl (\<lambda>h c. h * 256 + of_char c + 1) 0 str"

section \<open>MarkovNode\<close>

text \<open>
  \<^verbatim>\<open>class MarkovNode(WeightMap)\<close>: a node is a mutable object that is a dict (its
  outgoing edges, keyed by node objects) and carries the attribute \<^verbatim>\<open>data\<close>.
  Nodes are shared: the node list, the dicts of other nodes and the training loop all
  hold references to the same objects. So the objects live in a store, a reference is the
  position of the object in the store, and creating a node appends to the store.
\<close>

type_synonym ref = nat

record 'p MarkovNode =
  data :: 'p
  dict :: "ref WeightMap"

type_synonym 'p heap = "'p MarkovNode list"

definition MarkovNode_init :: "'p \<Rightarrow> 'p MarkovNode" where
  "MarkovNode_init d = \<lparr>data = d, dict = []\<rparr>"

text \<open>\<^verbatim>\<open>__hash__\<close> returns \<^verbatim>\<open>hash(self.data)\<close>; \<open>hash\<close> is Python's hash on payloads.\<close>

definition MarkovNode_hash :: "('p \<Rightarrow> int) \<Rightarrow> 'p heap \<Rightarrow> ref \<Rightarrow> int" where
  "MarkovNode_hash hash s self = hash (data (s ! self))"

text \<open>
  The class defines no \<^verbatim>\<open>__eq__\<close>, so \<^verbatim>\<open>a == b\<close> on two nodes is the inherited
  \<^verbatim>\<open>dict.__eq__\<close>: it compares the two edge mappings, whose keys are nodes again.
  Every nested comparison enters one more level of the interpreter's recursion;
  \<open>depth\<close> is the number of levels left, and \<^verbatim>\<open>RecursionError\<close> is raised at 0.
\<close>

primrec MarkovNode_eq :: "nat \<Rightarrow> ('p \<Rightarrow> int) \<Rightarrow> 'p heap \<Rightarrow> ref \<Rightarrow> ref \<Rightarrow> error + bool" where
  "MarkovNode_eq 0 hash s = (\<lambda>a b. Inl RecursionError)"
| "MarkovNode_eq (Suc depth) hash s =
     (\<lambda>a b. dict_equal (MarkovNode_hash hash s) (MarkovNode_eq depth hash s)
              (dict (s ! a)) (dict (s ! b)))"

text \<open>
  \<^verbatim>\<open>
    def find(nodes, data, add=False):
        node = next((node for node in nodes if node.data==data), None)
        if node == None:
            if not add:
                raise KeyError
            node = MarkovNode(data)
            nodes += [node]
        return node
  \<close>
  The functions that change the store return the outcome (an exception or a value)
  together with the node list and the store as they are left.
\<close>

definition MarkovNode_find ::
  "'p heap \<Rightarrow> ref list \<Rightarrow> 'p \<Rightarrow> bool \<Rightarrow> (error + ref) \<times> ref list \<times> 'p heap" where
  "MarkovNode_find s nodes d add =
     (case List.find (\<lambda>node. data (s ! node) = d) nodes of
        Some node \<Rightarrow> (Inr node, nodes, s)
      | None \<Rightarrow>
          if \<not> add then (Inl KeyError, nodes, s)
          else (let node = length s in (Inr node, nodes @ [node], s @ [MarkovNode_init d])))"

text \<open>
  \<^verbatim>\<open>
    def inc(self, nodes, childData, increment=1):
        childNode = MarkovNode.find(nodes, childData, True)
        self[childNode] += increment
        return childNode
  \<close>
  The augmented assignment reads \<^verbatim>\<open>self[childNode]\<close> (which stores 0 for a missing
  key) and then assigns the sum to \<^verbatim>\<open>self[childNode]\<close>.
\<close>

definition MarkovNode_inc ::
  "('p \<Rightarrow> int) \<Rightarrow> nat \<Rightarrow> 'p heap \<Rightarrow> ref \<Rightarrow> ref list \<Rightarrow> 'p \<Rightarrow> int \<Rightarrow>
     (error + ref) \<times> ref list \<times> 'p heap" where
  "MarkovNode_inc hash depth s self nodes childData increment =
     (case MarkovNode_find s nodes childData True of
        (Inl e, nodes1, s1) \<Rightarrow> (Inl e, nodes1, s1)
      | (Inr childNode, nodes1, s1) \<Rightarrow>
          (case getitem (MarkovNode_hash hash s1) (MarkovNode_eq depth hash s1)
                  (dict (s1 ! self)) childNode of
             Inl e \<Rightarrow> (Inl e, nodes1, s1)
           | Inr (v, d2) \<Rightarrow>
               (let s2 = s1[self := (s1 ! self)\<lparr>dict := d2\<rparr>] in
                case setitem (MarkovNode_hash hash s2) (MarkovNode_eq depth hash s2)
                       (dict (s2 ! self)) childNode (v + increment) of
                  Inl e \<Rightarrow> (Inl e, nodes1, s2)
                | Inr d3 \<Rightarrow> (Inr childNode, nodes1, s2[self := (s2 ! self)\<lparr>dict := d3\<rparr>]))))"

text \<open>
  \<^verbatim>\<open>
    def __iter__(self):
        node = self
        while node:
            yield node.data
            node = node()
        yield node.data
  \<close>
  \<^verbatim>\<open>while node\<close> tests that the dict is not empty. The generator may run forever;
  the result \<open>None\<close> stands for that. Otherwise the result is the sequence of the
  values yielded, and the exception that ended the generator, if one did. \<open>rnd i\<close>
  is the point of the \<open>i\<close>-th draw (the value of \<^verbatim>\<open>random() * total\<close> in the
  \<open>i\<close>-th call of \<^verbatim>\<open>random.choices\<close>), and \<open>out\<close> holds the values yielded so far.
\<close>

partial_function (option) MarkovNode_iter ::
  "'p heap \<Rightarrow> (nat \<Rightarrow> real) \<Rightarrow> nat \<Rightarrow> ref \<Rightarrow> 'p list \<Rightarrow> ('p list \<times> error option) option" where
  "MarkovNode_iter s rnd i node out =
     (if dict (s ! node) \<noteq> [] then
        (case WeightMap_call (rnd i) (dict (s ! node)) of
           Inl e \<Rightarrow> Some (out @ [data (s ! node)], Some e)
         | Inr node' \<Rightarrow> MarkovNode_iter s rnd (i + 1) node' (out @ [data (s ! node)]))
      else Some (out @ [data (s ! node)], None))"

declare MarkovNode_iter.simps [code]

subsection \<open>The training loop of the test cell\<close>

text \<open>
  \<^verbatim>\<open>
    training = 'abababbbabababbbababaaaababababababa\n'
    nodes = [MarkovNode('')]
    node = nodes[0]
    for c in training:
        node = node.inc(nodes, c)
  \<close>
\<close>

fun train ::
  "('p \<Rightarrow> int) \<Rightarrow> nat \<Rightarrow> 'p heap \<Rightarrow> ref list \<Rightarrow> ref \<Rightarrow> 'p list \<Rightarrow>
     (error + ref) \<times> ref list \<times> 'p heap" where
  "train hash depth s nodes node [] = (Inr node, nodes, s)"
| "train hash depth s nodes node (c # cs) =
     (case MarkovNode_inc hash depth s node nodes c 1 of
        (Inl e, nodes', s') \<Rightarrow> (Inl e, nodes', s')
      | (Inr node', nodes', s') \<Rightarrow> train hash depth s' nodes' node' cs)"

definition training :: "string list" where
  "training = map (\<lambda>c. [c]) (''abababbbabababbbababaaaababababababa'' @ [CHR 0x0A])"

definition test_cell :: "(string \<Rightarrow> int) \<Rightarrow> nat \<Rightarrow> (error + ref) \<times> ref list \<times> string heap" where
  "test_cell hash depth = train hash depth [MarkovNode_init []] [0] 0 training"

text \<open>The transitions observed in a token sequence that is read from a start payload.\<close>

definition transitions :: "'p \<Rightarrow> 'p list \<Rightarrow> ('p \<times> 'p) list" where
  "transitions start tokens = zip (start # tokens) tokens"

subsection \<open>Notions used in the statements\<close>

text \<open>All references of a list point into the store.\<close>

definition valid_refs :: "'p heap \<Rightarrow> ref list \<Rightarrow> bool" where
  "valid_refs s rs = (\<forall>r\<in>set rs. r < length s)"

text \<open>
  A walk along the draws \<open>rnd i\<close>, \<open>rnd (i + 1)\<close>, ... that ends in a node without
  entries: every node but the last has entries and its draw selects the next node.
\<close>

fun walk :: "'p heap \<Rightarrow> (nat \<Rightarrow> real) \<Rightarrow> nat \<Rightarrow> ref list \<Rightarrow> bool" where
  "walk s rnd i [] = False"
| "walk s rnd i [node] = (dict (s ! node) = [])"
| "walk s rnd i (node # node' # path) =
     (dict (s ! node) \<noteq> [] \<and> WeightMap_call (rnd i) (dict (s ! node)) = Inr node' \<and>
      walk s rnd (i + 1) (node' # path))"

text \<open>
  The states (store and node list) that arise from a list holding one start node by
  calls of \<^verbatim>\<open>find\<close> with \<^verbatim>\<open>add=True\<close> and of \<^verbatim>\<open>inc\<close> on a node of the list,
  whatever their outcome.
\<close>

inductive reachable :: "('p \<Rightarrow> int) \<Rightarrow> nat \<Rightarrow> 'p \<Rightarrow> 'p heap \<times> ref list \<Rightarrow> bool"
  for hash :: "'p \<Rightarrow> int" and depth :: nat and start :: 'p where
  start: "reachable hash depth start ([MarkovNode_init start], [0])"
| find: "reachable hash depth start (s, nodes) \<Longrightarrow>
         MarkovNode_find s nodes d True = (r, nodes', s') \<Longrightarrow>
         reachable hash depth start (s', nodes')"
| inc: "reachable hash depth start (s, nodes) \<Longrightarrow> self \<in> set nodes \<Longrightarrow>
        MarkovNode_inc hash depth s self nodes d increment = (r, nodes', s') \<Longrightarrow>
        reachable hash depth start (s', nodes')"

subsection \<open>Examples of payload hashes and of draws\<close>

text \<open>
  CPython's hash of an integer: the value reduced modulo \<open>2 ^ 61 - 1\<close> with its sign
  kept, where \<open>- 1\<close> (the error marker of the C API) is replaced by \<open>- 2\<close>.
\<close>

definition int_hash :: "int \<Rightarrow> int" where
  "int_hash n = (let h = sgn n * (\<bar>n\<bar> mod (2 ^ 61 - 1)) in if h = - 1 then - 2 else h)"

text \<open>Draws whose point is one half every time.\<close>

definition fair_draws :: "nat \<Rightarrow> real" where
  "fair_draws i = 1 / 2"

subsection \<open>The invariant of the reachable states\<close>

text \<open>
  Every object of the store is in the node list, in the order of creation, and no two
  objects carry the same payload.
\<close>

definition graph_inv :: "'p heap \<Rightarrow> ref list \<Rightarrow> bool" where
  "graph_inv s nodes \<longleftrightarrow> nodes = [0..<length s] \<and> distinct (map data s)"

section \<open>Properties of WeightMap\<close>

subsection \<open>Cumulative weights and bisection\<close>

lemma length_accumulate_from: "length (accumulate_from t ws) = length ws"
  by (induction ws arbitrary: t) auto

lemma nth_accumulate_from:
  "i < length ws \<Longrightarrow> accumulate_from t ws ! i = t + sum_list (take (Suc i) ws)"
proof (induction ws arbitrary: t i)
  case Nil
  then show ?case by simp
next
  case (Cons w ws)
  then show ?case by (cases i) auto
qed

lemma length_accumulate: "length (accumulate ws) = length ws"
  by (simp add: accumulate_def length_accumulate_from)

lemma accumulate_Nil_iff: "accumulate ws = [] \<longleftrightarrow> ws = []"
  using length_accumulate[of ws] by (metis length_0_conv)

lemma length_dict_values: "length (dict_values self) = length self"
  by (simp add: dict_values_def)

lemma length_dict_keys: "length (dict_keys self) = length self"
  by (simp add: dict_keys_def)

lemma sum_list_take_Suc:
  "i < length ws \<Longrightarrow> sum_list (take (Suc i) ws) = sum_list (take i ws) + (ws ! i :: int)"
  by (simp add: take_Suc_conv_app_nth)

lemma accumulate_step:
  assumes "0 < i" "i < length ws"
  shows "ws ! i = accumulate ws ! i - accumulate ws ! (i - 1)"
proof -
  obtain j where j: "i = Suc j" using assms(1) by (cases i) auto
  show ?thesis using assms(2)
    by (simp add: j accumulate_def nth_accumulate_from sum_list_take_Suc)
qed

lemma accumulate_first: "0 < length ws \<Longrightarrow> accumulate ws ! 0 = ws ! 0"
  by (cases ws) (simp_all add: accumulate_def)

lemma last_accumulate:
  assumes "ws \<noteq> []"
  shows "last (accumulate ws) = sum_list ws"
proof -
  have len: "0 < length ws" using assms by simp
  have "last (accumulate ws) = accumulate ws ! (length ws - 1)"
    using assms by (simp add: last_conv_nth length_accumulate accumulate_Nil_iff)
  also have "\<dots> = sum_list (take (Suc (length ws - 1)) ws)"
    using len by (simp add: accumulate_def nth_accumulate_from)
  also have "\<dots> = sum_list ws" using len by simp
  finally show ?thesis .
qed

lemma bisect_stop: "\<not> lo < hi \<Longrightarrow> bisect a x lo hi = lo"
  by (simp add: bisect.simps)

lemma bisect_left:
  "lo < hi \<Longrightarrow> x < real_of_int (a ! ((lo + hi) div 2)) \<Longrightarrow>
   bisect a x lo hi = bisect a x lo ((lo + hi) div 2)"
  by (subst bisect.simps) (simp add: Let_def)

lemma bisect_right:
  "lo < hi \<Longrightarrow> \<not> x < real_of_int (a ! ((lo + hi) div 2)) \<Longrightarrow>
   bisect a x lo hi = bisect a x ((lo + hi) div 2 + 1) hi"
  by (subst bisect.simps) (simp add: Let_def)

lemma bisect_bounds:
  "lo \<le> hi \<Longrightarrow> lo \<le> bisect a x lo hi \<and> bisect a x lo hi \<le> hi"
proof (induction a x lo hi rule: bisect.induct)
  case (1 a x lo hi)
  show ?case
  proof (cases "lo < hi")
    case lt: True
    show ?thesis
    proof (cases "x < real_of_int (a ! ((lo + hi) div 2))")
      case True
      have "lo \<le> (lo + hi) div 2" using lt by arith
      moreover have "(lo + hi) div 2 \<le> hi" using lt by arith
      ultimately show ?thesis using 1(1)[OF lt refl True]
        by (simp add: bisect_left[OF lt True])
    next
      case False
      have "(lo + hi) div 2 + 1 \<le> hi" using lt by arith
      moreover have "lo \<le> (lo + hi) div 2 + 1" using lt by arith
      ultimately show ?thesis using 1(2)[OF lt refl False]
        by (simp add: bisect_right[OF lt False])
    qed
  next
    case False
    then show ?thesis using 1(3) by (simp add: bisect_stop)
  qed
qed

text \<open>The entry before the index found is not above \<open>x\<close>, unless the index is \<open>lo\<close>.\<close>

lemma bisect_pred_le:
  "lo \<le> hi \<Longrightarrow> lo < bisect a x lo hi \<Longrightarrow> real_of_int (a ! (bisect a x lo hi - 1)) \<le> x"
proof (induction a x lo hi rule: bisect.induct)
  case (1 a x lo hi)
  show ?case
  proof (cases "lo < hi")
    case lt: True
    let ?mid = "(lo + hi) div 2"
    show ?thesis
    proof (cases "x < real_of_int (a ! ?mid)")
      case True
      have "lo \<le> ?mid" using lt by arith
      from 1(1)[OF lt refl True this] 1(4) show ?thesis
        by (simp add: bisect_left[OF lt True])
    next
      case False
      have le: "?mid + 1 \<le> hi" using lt by arith
      have eq: "bisect a x lo hi = bisect a x (?mid + 1) hi"
        by (rule bisect_right[OF lt False])
      show ?thesis
      proof (cases "?mid + 1 < bisect a x (?mid + 1) hi")
        case True
        from 1(2)[OF lt refl False le True] eq show ?thesis by simp
      next
        case F: False
        with bisect_bounds[OF le, of a x] have "bisect a x (?mid + 1) hi = ?mid + 1" by simp
        with eq False show ?thesis by simp
      qed
    qed
  next
    case False
    then show ?thesis using 1(4) by (simp add: bisect_stop)
  qed
qed

text \<open>The entry at the index found is above \<open>x\<close>, unless the index is \<open>hi\<close>.\<close>

lemma bisect_gt:
  "lo \<le> hi \<Longrightarrow> bisect a x lo hi < hi \<Longrightarrow> x < real_of_int (a ! bisect a x lo hi)"
proof (induction a x lo hi rule: bisect.induct)
  case (1 a x lo hi)
  show ?case
  proof (cases "lo < hi")
    case lt: True
    let ?mid = "(lo + hi) div 2"
    show ?thesis
    proof (cases "x < real_of_int (a ! ?mid)")
      case T: True
      have eq: "bisect a x lo hi = bisect a x lo ?mid"
        by (rule bisect_left[OF lt T])
      have le: "lo \<le> ?mid" using lt by arith
      show ?thesis
      proof (cases "bisect a x lo ?mid < ?mid")
        case True
        from 1(1)[OF lt refl T le True] eq show ?thesis by simp
      next
        case False
        with bisect_bounds[OF le, of a x] have "bisect a x lo ?mid = ?mid" by simp
        with eq T show ?thesis by simp
      qed
    next
      case False
      have le: "?mid + 1 \<le> hi" using lt by arith
      from 1(2)[OF lt refl False le] 1(4) show ?thesis
        by (simp add: bisect_right[OF lt False])
    qed
  next
    case False
    then show ?thesis using 1(3,4) by (simp add: bisect_stop)
  qed
qed

text \<open>
  The index that \<open>choices\<close> selects carries a strictly positive weight, for every point
  \<open>x\<close> of the draw with \<open>0 \<le> x\<close> below the total. Nothing is assumed about the sign
  of the single weights.
\<close>

lemma drawn_weight_positive:
  assumes ne: "ws \<noteq> []" and x0: "0 \<le> x" and x1: "x < real_of_int (sum_list ws)"
  defines "r \<equiv> bisect (accumulate ws) x 0 (length ws - 1)"
  shows "r < length ws \<and> 0 < ws ! r"
proof -
  let ?a = "accumulate ws"
  have bnd: "r \<le> length ws - 1"
    unfolding r_def using bisect_bounds[of 0 "length ws - 1" ?a x] by simp
  with ne have r_lt: "r < length ws" by (cases ws) auto
  have gt: "x < real_of_int (?a ! r)"
  proof (cases "r < length ws - 1")
    case True
    then show ?thesis unfolding r_def using bisect_gt[of 0 "length ws - 1" ?a x] by simp
  next
    case False
    with bnd have "r = length ws - 1" by simp
    then have "?a ! r = last ?a"
      using ne by (simp add: last_conv_nth length_accumulate accumulate_Nil_iff)
    then show ?thesis using x1 ne by (simp add: last_accumulate)
  qed
  have "0 < ws ! r"
  proof (cases "0 < r")
    case True
    then have "real_of_int (?a ! (r - 1)) \<le> x"
      unfolding r_def using bisect_pred_le[of 0 "length ws - 1" ?a x] by simp
    with gt have "?a ! (r - 1) < ?a ! r" by linarith
    then show ?thesis using accumulate_step[OF True r_lt] by simp
  next
    case False
    then have "r = 0" by simp
    with gt x0 have "0 < ?a ! 0" by simp
    then show ?thesis using accumulate_first[of ws] r_lt \<open>r = 0\<close> by simp
  qed
  with r_lt show ?thesis by simp
qed

lemma float_overflow_bound_pos: "0 < float_overflow_bound"
  by (simp add: float_overflow_bound_def)

lemma float_overflow_bound_above: "\<bar>t\<bar> \<le> 100 \<Longrightarrow> \<bar>t\<bar> < float_overflow_bound"
  by (simp add: float_overflow_bound_def)

text \<open>The four outcomes of \<^verbatim>\<open>__call__\<close>.\<close>

lemma call_cases:
  "WeightMap_call x self =
     (if self = [] then Inl IndexError
      else if float_overflow_bound \<le> \<bar>sum_list (dict_values self)\<bar> then Inl OverflowError
      else if sum_list (dict_values self) \<le> 0 then Inl ValueError
      else Inr (dict_keys self ! bisect (accumulate (dict_values self)) x 0 (length self - 1)))"
proof (cases "self = []")
  case True
  then show ?thesis
    by (simp add: WeightMap_call_def choices_def dict_keys_def dict_values_def accumulate_def)
next
  case False
  then have ne: "dict_values self \<noteq> []" by (simp add: dict_values_def)
  show ?thesis using False ne
    by (simp add: WeightMap_call_def choices_def Let_def length_accumulate accumulate_Nil_iff
        last_accumulate length_dict_keys length_dict_values)
qed

subsection \<open>Lookup and assignment\<close>

lemma lookdict_value_eq: "lookdict hash value_eq self key = Inr (map_of self key)"
  by (induction self) (auto simp: value_eq_def)

lemma map_of_None_iff_keys: "map_of self key = None \<longleftrightarrow> key \<notin> set (dict_keys self)"
  by (simp add: map_of_eq_None_iff dict_keys_def)

text \<open>An assignment to a key that the lookup does not find appends the key.\<close>

lemma insertdict_not_found:
  "lookdict hash eq self key = Inr None \<Longrightarrow>
   insertdict hash eq self key val = Inr (self @ [(key, val)])"
proof (induction self)
  case Nil
  show ?case by simp
next
  case (Cons e self)
  obtain k v where e: "e = (k, v)" by (cases e)
  from Cons.prems have "lookdict hash eq self key = Inr None"
    by (auto simp: e split: if_splits sum.splits)
  from Cons.IH[OF this] Cons.prems show ?case
    by (auto simp: e split: if_splits sum.splits)
qed

lemma lookdict_found_stored:
  "lookdict hash eq self key = Inr (Some v) \<Longrightarrow> \<exists>k. (k, v) \<in> set self"
proof (induction self)
  case Nil
  then show ?case by simp
next
  case (Cons e self)
  obtain k w where e: "e = (k, w)" by (cases e)
  from Cons show ?case
    by (auto simp: e split: if_splits sum.splits)
qed

lemma lookdict_None_not_stored:
  "lookdict hash eq self key = Inr None \<Longrightarrow> key \<notin> set (dict_keys self)"
proof (induction self)
  case Nil
  show ?case by (simp add: dict_keys_def)
next
  case (Cons e self)
  obtain k w where e: "e = (k, w)" by (cases e)
  from Cons show ?case
    by (auto simp: e dict_keys_def split: if_splits sum.splits)
qed

lemma weight_append_zero: "weight (self @ [(key, 0)]) k = weight self k"
  by (auto simp: weight_def map_add_def split: option.splits)

subsection \<open>Sampling fails on a zero total and on a total beyond the doubles\<close>

text \<open>
  Claim C6, as stated, fails: a mapping can have a positive total, and a key of positive
  weight, and \<^verbatim>\<open>__call__\<close> raises all the same. With the single weight \<open>2 ^ 1024\<close>
  the conversion \<^verbatim>\<open>cum_weights[-1] + 0.0\<close> raises \<^verbatim>\<open>OverflowError\<close>.
\<close>

theorem sample_fails_on_huge_total:
  "(0::int) < 2 ^ 1024 \<and>
   sum_list (dict_values [(''a'', 2 ^ 1024)]) \<noteq> 0 \<and>
   WeightMap_call (1 / 2) [(''a'', 2 ^ 1024)] = Inl OverflowError"
  by (simp add: call_cases dict_values_def float_overflow_bound_def)

text \<open>
  Claim C6, amended. Let all weights be non-negative (the invariant of the data model).
  When the total is below \<open>2 ^ 1024 - 2 ^ 970\<close>, so that it converts to a double,
  \<^verbatim>\<open>__call__\<close> raises an exception if and only if the total is zero, and it returns a
  key of the mapping whenever some key has a positive weight. The total is zero exactly
  when the mapping has no keys or all stored weights are zero; the exception is then
  \<^verbatim>\<open>IndexError\<close> for a mapping without keys and \<^verbatim>\<open>ValueError\<close> otherwise. When the
  total is \<open>2 ^ 1024 - 2 ^ 970\<close> or more, \<^verbatim>\<open>__call__\<close> raises \<^verbatim>\<open>OverflowError\<close>.
\<close>

theorem sample_fails_iff_total_zero:
  assumes "\<forall>w\<in>set (dict_values self). 0 \<le> w"
  shows "(sum_list (dict_values self) < float_overflow_bound \<longrightarrow>
            ((\<exists>e. WeightMap_call x self = Inl e) \<longleftrightarrow> sum_list (dict_values self) = 0) \<and>
            ((\<exists>w\<in>set (dict_values self). 0 < w) \<longrightarrow>
               (\<exists>k\<in>set (dict_keys self). WeightMap_call x self = Inr k))) \<and>
         (sum_list (dict_values self) = 0 \<longleftrightarrow>
            self = [] \<or> (\<forall>w\<in>set (dict_values self). w = 0)) \<and>
         (sum_list (dict_values self) = 0 \<longrightarrow>
            WeightMap_call x self = Inl (if self = [] then IndexError else ValueError)) \<and>
         (float_overflow_bound \<le> sum_list (dict_values self) \<longrightarrow>
            WeightMap_call x self = Inl OverflowError)"
proof -
  let ?ws = "dict_values self"
  have nonneg: "0 \<le> sum_list ?ws" using assms by (simp add: sum_list_nonneg)
  then have abs: "\<bar>sum_list ?ws\<bar> = sum_list ?ws" by simp
  have zero: "sum_list ?ws = 0 \<longleftrightarrow> (\<forall>w\<in>set ?ws. w = 0)"
    using assms by (simp add: sum_list_nonneg_eq_0_iff)
  have empty: "self = [] \<Longrightarrow> sum_list ?ws = 0" by (simp add: dict_values_def)
  have a: "(\<exists>e. WeightMap_call x self = Inl e) \<longleftrightarrow> sum_list ?ws = 0"
    if "sum_list ?ws < float_overflow_bound"
    using nonneg empty that by (auto simp: call_cases abs)
  have b: "sum_list ?ws = 0 \<longleftrightarrow> self = [] \<or> (\<forall>w\<in>set ?ws. w = 0)"
    using zero empty by auto
  have c: "\<exists>k\<in>set (dict_keys self). WeightMap_call x self = Inr k"
    if small: "sum_list ?ws < float_overflow_bound" and "\<exists>w\<in>set ?ws. 0 < w"
  proof -
    from that(2) have ne: "self \<noteq> []" and pos: "0 < sum_list ?ws"
      using zero nonneg by (auto simp: dict_values_def)
    let ?r = "bisect (accumulate ?ws) x 0 (length self - 1)"
    have "?r \<le> length self - 1" using bisect_bounds[of 0 "length self - 1"] by simp
    with ne have "?r < length (dict_keys self)" by (cases self) (auto simp: dict_keys_def)
    then have "dict_keys self ! ?r \<in> set (dict_keys self)" by (rule nth_mem)
    then show ?thesis using ne pos small by (simp add: call_cases abs)
  qed
  have d: "WeightMap_call x self = Inl (if self = [] then IndexError else ValueError)"
    if "sum_list ?ws = 0"
    using that float_overflow_bound_pos by (simp add: call_cases)
  have e: "WeightMap_call x self = Inl OverflowError"
    if "float_overflow_bound \<le> sum_list ?ws"
  proof -
    from that float_overflow_bound_pos have "sum_list ?ws \<noteq> 0" by simp
    with empty have "self \<noteq> []" by blast
    then show ?thesis using that by (simp add: call_cases abs)
  qed
  from a b c d e show ?thesis by blast
qed

theorem sample_fails_iff_total_zero_witness:
  "(0 \<le> (0::int) \<and> 0 \<le> (2::int)) \<and>
   sum_list (dict_values [(''a'', 0), (''b'', 2)]) < float_overflow_bound \<and>
   sum_list (dict_values [(''a'', 0), (''b'', 2)]) \<noteq> 0 \<and>
   \<not> (\<exists>e. WeightMap_call (1 / 2) [(''a'', 0), (''b'', 2)] = Inl e) \<and>
   (\<exists>k\<in>set (dict_keys [(''a'', 0), (''b'', 2)]).
      WeightMap_call (1 / 2) [(''a'', 0), (''b'', 2)] = Inr k)"
proof -
  have h: "\<forall>w\<in>set (dict_values [(''a'', 0), (''b'', 2)]). 0 \<le> w"
    by (simp add: dict_values_def)
  have p: "\<exists>w\<in>set (dict_values [(''a'', 0), (''b'', 2)]). 0 < w"
    by (simp add: dict_values_def)
  have n: "sum_list (dict_values [(''a'', 0), (''b'', 2)]) \<noteq> 0"
    by (simp add: dict_values_def)
  have s: "sum_list (dict_values [(''a'', 0), (''b'', 2)]) < float_overflow_bound"
    using float_overflow_bound_above[of 2] by (simp add: dict_values_def)
  from sample_fails_iff_total_zero[OF h, of "1 / 2"] p n s show ?thesis by simp
qed

subsection \<open>Sampling returns keys of positive weight only\<close>

text \<open>
  Claim C8. Whatever the point \<open>x\<close> of the random draw, from 0 up to but not including
  the total, a key that \<^verbatim>\<open>__call__\<close> returns is a key of the mapping and its weight is
  strictly positive; so a key that is absent or has weight 0 is never returned.
\<close>

theorem sample_returns_positive_weight:
  assumes "distinct (dict_keys self)" "0 \<le> x" "x < real_of_int (sum_list (dict_values self))"
    "WeightMap_call x self = Inr k"
  shows "k \<in> set (dict_keys self) \<and> 0 < weight self k"
proof -
  let ?ws = "dict_values self"
  from assms(4) have ne: "self \<noteq> []" and pos: "0 < sum_list ?ws"
    and small: "\<not> float_overflow_bound \<le> \<bar>sum_list ?ws\<bar>"
    by (auto simp: call_cases split: if_splits)
  define r where "r = bisect (accumulate ?ws) x 0 (length ?ws - 1)"
  have "?ws \<noteq> []" using ne by (simp add: dict_values_def)
  from drawn_weight_positive[OF this assms(2,3)]
  have r: "r < length self" "0 < ?ws ! r" by (simp_all add: r_def length_dict_values)
  have k: "k = dict_keys self ! r" using assms(4) ne pos small
    by (simp add: call_cases r_def length_dict_values)
  have "self ! r = (k, ?ws ! r)" using r(1) by (simp add: k dict_keys_def dict_values_def)
  then have mem: "(k, ?ws ! r) \<in> set self" using r(1) by (metis nth_mem)
  then have "map_of self k = Some (?ws ! r)" using assms(1) by (simp add: dict_keys_def)
  then have "weight self k = ?ws ! r" by (simp add: weight_def)
  moreover have "k \<in> set (dict_keys self)" using mem by (force simp: dict_keys_def)
  ultimately show ?thesis using r(2) by simp
qed

theorem sample_returns_positive_weight_witness:
  "distinct (dict_keys [(''a'', 1), (''b'', 2)]) \<and> (0::real) \<le> 3 / 2 \<and>
   (3 / 2 :: real) < real_of_int (sum_list (dict_values [(''a'', 1), (''b'', 2)])) \<and>
   WeightMap_call (3 / 2) [(''a'', 1), (''b'', 2)] = Inr ''b'' \<and>
   ''b'' \<in> set (dict_keys [(''a'', 1), (''b'', 2)]) \<and> 0 < weight [(''a'', 1), (''b'', 2)] ''b''"
proof -
  have d: "distinct (dict_keys [(''a'', 1 :: int), (''b'', 2)])"
    by (simp add: dict_keys_def)
  have t: "(3 / 2 :: real) < real_of_int (sum_list (dict_values [(''a'', 1), (''b'', 2)]))"
    by (simp add: dict_values_def)
  have b: "bisect [1, 3] (3 / 2) 0 (Suc 0) = Suc 0"
    by (simp add: bisect_right bisect_stop)
  have c: "WeightMap_call (3 / 2) [(''a'', 1), (''b'', 2)] = Inr ''b''"
    using float_overflow_bound_above[of 3]
    by (simp add: call_cases dict_values_def dict_keys_def accumulate_def b)
  from sample_returns_positive_weight[OF d _ t c] d t c show ?thesis by simp
qed

subsection \<open>Reading a weight stores a missing key\<close>

text \<open>
  A state that the training loop reaches, and a read in it that raises: after training
  the tokens \<open>- 1\<close>, \<open>- 2\<close>, \<open>- 1\<close> from the start payload \<open>0\<close>, the nodes
  \<open>- 1\<close> and \<open>- 2\<close> have the same hash and each has the other as its only key.
  Comparing them never ends, whatever the recursion limit, and reading the weight of
  the node \<open>- 1\<close> in its own dict, where it is not stored, raises
  \<^verbatim>\<open>RecursionError\<close>.
\<close>

lemma cyclic_nodes_eq_raises:
  "MarkovNode_eq depth int_hash
     [\<lparr>data = 0, dict = [(1, 1)]\<rparr>, \<lparr>data = - 1, dict = [(2, 1)]\<rparr>, \<lparr>data = - 2, dict = [(1, 1)]\<rparr>]
     2 1 = Inl RecursionError"
proof (induction depth)
  case 0
  show ?case by simp
next
  case (Suc depth)
  then show ?case
    by (simp add: dict_equal_def MarkovNode_hash_def int_hash_def)
qed

lemma read_absent_node_key_raises:
  "train int_hash depth [MarkovNode_init 0] [0] 0 [- 1, - 2, - 1] =
     (Inr 1, [0, 1, 2],
      [\<lparr>data = 0, dict = [(1, 1)]\<rparr>, \<lparr>data = - 1, dict = [(2, 1)]\<rparr>, \<lparr>data = - 2, dict = [(1, 1)]\<rparr>]) \<and>
   getitem
     (MarkovNode_hash int_hash
        [\<lparr>data = 0, dict = [(1, 1)]\<rparr>, \<lparr>data = - 1, dict = [(2, 1)]\<rparr>, \<lparr>data = - 2, dict = [(1, 1)]\<rparr>])
     (MarkovNode_eq depth int_hash
        [\<lparr>data = 0, dict = [(1, 1)]\<rparr>, \<lparr>data = - 1, dict = [(2, 1)]\<rparr>, \<lparr>data = - 2, dict = [(1, 1)]\<rparr>])
     [(2, 1)] 1 = Inl RecursionError"
  by (simp add: MarkovNode_inc_def MarkovNode_find_def getitem_def setitem_def
      MarkovNode_init_def MarkovNode_hash_def int_hash_def
      cyclic_nodes_eq_raises[simplified])

text \<open>
  Claim C10, as stated, fails: reading the weight of a key that is not stored changes
  the key set. Reading the weight of \<^verbatim>\<open>'x'\<close> in the empty mapping leaves the mapping
  \<^verbatim>\<open>{'x': 0}\<close>.
\<close>

theorem get_absent_key_changes_mapping:
  "getitem example_hash value_eq [] ''x'' = Inr (0, [(''x'', 0)]) \<and>
   dict_keys [(''x'', 0 :: int)] \<noteq> dict_keys []"
  by (simp add: getitem_def setitem_def dict_keys_def)

text \<open>
  Claim C10, amended. For every mapping, whatever the hash and the comparison of its
  keys, reading the weight of a key (\<^verbatim>\<open>self[key]\<close>) has one of three outcomes. If
  comparing keys raises during the lookup, the read raises that exception. If the lookup
  finds the key, the read returns the weight stored for it and leaves the mapping as it
  is. If the lookup finds no such key, the read returns 0 and appends the key with weight
  0; every other entry stays, and the weight stored for every key is the same before and
  after. For keys that are compared by value (strings, integers) the read never raises,
  returns the stored weight or 0, and appends the key exactly when it is not stored.
  \<^verbatim>\<open>__call__\<close> leaves the mapping as it is.
\<close>

theorem get_stores_only_missing_key:
  "(case lookdict hash eq self key of
      Inl e \<Rightarrow> getitem hash eq self key = Inl e
    | Inr None \<Rightarrow>
        getitem hash eq self key = Inr (0, self @ [(key, 0)]) \<and> key \<notin> set (dict_keys self)
    | Inr (Some v) \<Rightarrow>
        getitem hash eq self key = Inr (v, self) \<and> (\<exists>k. (k, v) \<in> set self)) \<and>
   (\<forall>k. weight (self @ [(key, 0)]) k = weight self k) \<and>
   (\<exists>self'. getitem hash value_eq self key = Inr (weight self key, self') \<and>
      self' = (if key \<in> set (dict_keys self) then self else self @ [(key, 0)]) \<and>
      (\<forall>k. weight self' k = weight self k)) \<and>
   snd (WeightMap_call_effect x self) = self"
proof -
  have a: "case lookdict hash eq self key of
      Inl e \<Rightarrow> getitem hash eq self key = Inl e
    | Inr None \<Rightarrow>
        getitem hash eq self key = Inr (0, self @ [(key, 0)]) \<and> key \<notin> set (dict_keys self)
    | Inr (Some v) \<Rightarrow>
        getitem hash eq self key = Inr (v, self) \<and> (\<exists>k. (k, v) \<in> set self)"
  proof (cases "lookdict hash eq self key")
    case (Inl e)
    then show ?thesis by (simp add: getitem_def)
  next
    case (Inr found)
    show ?thesis
    proof (cases found)
      case None
      with Inr have l: "lookdict hash eq self key = Inr None" by simp
      from insertdict_not_found[OF l, of 0] lookdict_None_not_stored[OF l] l
      show ?thesis by (simp add: getitem_def setitem_def)
    next
      case (Some v)
      with Inr have l: "lookdict hash eq self key = Inr (Some v)" by simp
      from lookdict_found_stored[OF l] l show ?thesis by (simp add: getitem_def)
    qed
  qed
  have b: "\<forall>k. weight (self @ [(key, 0)]) k = weight self k"
    by (simp add: weight_append_zero)
  have c: "\<exists>self'. getitem hash value_eq self key = Inr (weight self key, self') \<and>
      self' = (if key \<in> set (dict_keys self) then self else self @ [(key, 0)]) \<and>
      (\<forall>k. weight self' k = weight self k)"
  proof (cases "map_of self key")
    case None
    then have new: "key \<notin> set (dict_keys self)" by (simp add: map_of_None_iff_keys)
    have l: "lookdict hash value_eq self key = Inr None"
      using None by (simp add: lookdict_value_eq)
    have get: "getitem hash value_eq self key = Inr (0, self @ [(key, 0)])"
      using l insertdict_not_found[OF l, of 0] by (simp add: getitem_def setitem_def)
    have w: "weight self key = 0" using None by (simp add: weight_def)
    show ?thesis using get new by (simp add: w weight_append_zero)
  next
    case (Some v)
    then have "key \<in> set (dict_keys self)" using map_of_None_iff_keys[of self key] by simp
    then show ?thesis using Some
      by (simp add: getitem_def lookdict_value_eq weight_def)
  qed
  have d: "snd (WeightMap_call_effect x self) = self"
    by (simp add: WeightMap_call_effect_def)
  from a b c d show ?thesis by blast
qed

section \<open>Properties of MarkovNode\<close>

subsection \<open>Searching the node list\<close>

lemma find_append_single:
  "List.find P (xs @ [x]) =
     (case List.find P xs of None \<Rightarrow> (if P x then Some x else None) | Some y \<Rightarrow> Some y)"
  by (induction xs) auto

lemma find_cong_set:
  "(\<And>x. x \<in> set xs \<Longrightarrow> P x = Q x) \<Longrightarrow> List.find P xs = List.find Q xs"
  by (induction xs) auto

text \<open>
  What \<^verbatim>\<open>find\<close> with \<^verbatim>\<open>add=True\<close> returns and leaves: a node with the payload
  asked for, which is the first such node of the list it leaves; the old objects are
  untouched.
\<close>

lemma find_result:
  assumes "MarkovNode_find s nodes cd True = (r, nodes1, s1)" "valid_refs s nodes"
  shows "\<exists>child. r = Inr child \<and> child < length s1 \<and> data (s1 ! child) = cd \<and>
           List.find (\<lambda>node. data (s1 ! node) = cd) nodes1 = Some child \<and>
           valid_refs s1 nodes1 \<and> length s \<le> length s1 \<and> (\<forall>k<length s. s1 ! k = s ! k) \<and>
           length nodes1 \<le> length nodes + 1"
proof (cases "List.find (\<lambda>node. data (s ! node) = cd) nodes")
  case None
  let ?s1 = "s @ [MarkovNode_init cd]" and ?n = "length s"
  have first: "MarkovNode_find s nodes cd True = (Inr ?n, nodes @ [?n], ?s1)"
    using None by (simp add: MarkovNode_find_def Let_def)
  have "List.find (\<lambda>node. data (?s1 ! node) = cd) nodes =
      List.find (\<lambda>node. data (s ! node) = cd) nodes"
    using assms(2) by (intro find_cong_set) (simp add: valid_refs_def nth_append)
  then have "List.find (\<lambda>node. data (?s1 ! node) = cd) (nodes @ [?n]) = Some ?n"
    using None by (simp add: find_append_single MarkovNode_init_def)
  moreover have "valid_refs ?s1 (nodes @ [?n])"
    using assms(2) by (auto simp: valid_refs_def)
  ultimately show ?thesis using first assms(1)
    by (simp add: MarkovNode_init_def nth_append)
next
  case (Some node)
  then have first: "MarkovNode_find s nodes cd True = (Inr node, nodes, s)"
    by (simp add: MarkovNode_find_def)
  from Some have "node \<in> set nodes" "data (s ! node) = cd"
    by (auto simp: find_Some_iff)
  then show ?thesis using first assms Some by (auto simp: valid_refs_def)
qed

lemma find_again:
  assumes "List.find (\<lambda>node. data (s1 ! node) = cd) nodes1 = Some child"
    and "valid_refs s1 nodes1" "\<forall>k<length s1. data (s' ! k) = data (s1 ! k)"
  shows "MarkovNode_find s' nodes1 cd add = (Inr child, nodes1, s')"
proof -
  have "List.find (\<lambda>node. data (s' ! node) = cd) nodes1 =
      List.find (\<lambda>node. data (s1 ! node) = cd) nodes1"
    using assms(2,3) by (intro find_cong_set) (simp add: valid_refs_def)
  then show ?thesis using assms(1) by (simp add: MarkovNode_find_def)
qed

lemma find_cases:
  "MarkovNode_find s nodes cd True = (r, nodes1, s1) \<Longrightarrow>
   (\<exists>child. r = Inr child \<and> child \<in> set nodes \<and> nodes1 = nodes \<and> s1 = s) \<or>
   ((\<forall>node\<in>set nodes. data (s ! node) \<noteq> cd) \<and> r = Inr (length s) \<and>
    nodes1 = nodes @ [length s] \<and> s1 = s @ [MarkovNode_init cd])"
  by (cases "List.find (\<lambda>node. data (s ! node) = cd) nodes")
     (auto simp: MarkovNode_find_def Let_def find_None_iff find_Some_iff)

text \<open>
  Claim C3. For every node list (of references into the store) and every payload \<open>p\<close>,
  two calls of \<^verbatim>\<open>find\<close> with \<^verbatim>\<open>add=True\<close> return the same node object: a
  reference \<open>node\<close> to an object of the store that is in the node list and carries the
  payload \<open>p\<close>. The first call returns a node that was in the list and leaves list and
  store as they are, or, when no node of the list carries \<open>p\<close>, appends one new object
  with payload \<open>p\<close> and no edges to the store and its reference to the list; the second
  call changes neither the list nor the store. So the list is at most one node longer
  than before the first call.
\<close>

theorem find_or_create_twice:
  assumes "valid_refs s nodes"
  shows "\<exists>node nodes1 s1.
           MarkovNode_find s nodes p True = (Inr node, nodes1, s1) \<and>
           MarkovNode_find s1 nodes1 p True = (Inr node, nodes1, s1) \<and>
           node < length s1 \<and> node \<in> set nodes1 \<and> data (s1 ! node) = p \<and>
           valid_refs s1 nodes1 \<and>
           (node \<in> set nodes \<and> nodes1 = nodes \<and> s1 = s \<or>
            node = length s \<and> nodes1 = nodes @ [node] \<and> s1 = s @ [MarkovNode_init p] \<and>
            p \<notin> set (map (\<lambda>node. data (s ! node)) nodes)) \<and>
           length nodes1 \<le> length nodes + 1"
proof -
  obtain r nodes1 s1 where f: "MarkovNode_find s nodes p True = (r, nodes1, s1)"
    by (cases "MarkovNode_find s nodes p True") auto
  from find_result[OF f assms] obtain node where
    n: "r = Inr node" "node < length s1" "data (s1 ! node) = p"
       "List.find (\<lambda>node. data (s1 ! node) = p) nodes1 = Some node"
       "valid_refs s1 nodes1" "length nodes1 \<le> length nodes + 1"
    by blast
  from n(4) have again: "MarkovNode_find s1 nodes1 p True = (Inr node, nodes1, s1)"
    by (simp add: MarkovNode_find_def)
  from n(4) have mem: "node \<in> set nodes1" by (auto simp: find_Some_iff)
  from find_cases[OF f] n(1) have
    "node \<in> set nodes \<and> nodes1 = nodes \<and> s1 = s \<or>
     node = length s \<and> nodes1 = nodes @ [node] \<and> s1 = s @ [MarkovNode_init p] \<and>
     p \<notin> set (map (\<lambda>node. data (s ! node)) nodes)"
    by auto
  with f n again mem show ?thesis by simp
qed

theorem find_or_create_twice_witness:
  "valid_refs [MarkovNode_init ''a''] [0] \<and>
   MarkovNode_find [MarkovNode_init ''a''] [0] ''b'' True =
     (Inr 1, [0, 1], [MarkovNode_init ''a'', MarkovNode_init ''b'']) \<and>
   (\<exists>node nodes1 s1.
      MarkovNode_find [MarkovNode_init ''a''] [0] ''b'' True = (Inr node, nodes1, s1) \<and>
      MarkovNode_find s1 nodes1 ''b'' True = (Inr node, nodes1, s1) \<and>
      node < length s1 \<and> node \<in> set nodes1 \<and> data (s1 ! node) = ''b'' \<and>
      length nodes1 \<le> length [0 :: nat] + 1)"
proof -
  have h: "valid_refs [MarkovNode_init ''a''] [0]" by (simp add: valid_refs_def)
  have f: "MarkovNode_find [MarkovNode_init ''a''] [0] ''b'' True =
      (Inr 1, [0, 1], [MarkovNode_init ''a'', MarkovNode_init ''b''])"
    by (simp add: MarkovNode_find_def MarkovNode_init_def)
  from find_or_create_twice[OF h, of "''b''"] obtain node nodes1 s1 where
    "MarkovNode_find [MarkovNode_init ''a''] [0] ''b'' True = (Inr node, nodes1, s1)"
    "MarkovNode_find s1 nodes1 ''b'' True = (Inr node, nodes1, s1)"
    "node < length s1" "node \<in> set nodes1" "data (s1 ! node) = ''b''"
    "length nodes1 \<le> length [0 :: nat] + 1"
    by blast
  with h f show ?thesis by blast
qed

subsection \<open>Incrementing an edge\<close>

text \<open>
  When no other key of the dict has the hash of the key looked up, the key is found by
  identity or not at all, and \<^verbatim>\<open>==\<close> is never called.
\<close>

lemma lookdict_no_collision:
  "\<forall>k\<in>set (dict_keys d). k \<noteq> key \<longrightarrow> hash k \<noteq> hash key \<Longrightarrow>
   lookdict hash eq d key = Inr (map_of d key)"
  by (induction d) (auto simp: dict_keys_def)

lemma insertdict_no_collision:
  "\<forall>k\<in>set (dict_keys d). k \<noteq> key \<longrightarrow> hash k \<noteq> hash key \<Longrightarrow>
   \<exists>d'. insertdict hash eq d key v = Inr d' \<and> map_of d' = (map_of d)(key \<mapsto> v) \<and>
        set (dict_keys d') = insert key (set (dict_keys d))"
proof (induction d)
  case Nil
  then show ?case by (auto simp: dict_keys_def)
next
  case (Cons e d)
  obtain k w where e: "e = (k, w)" by (cases e)
  show ?case
  proof (cases "k = key")
    case True
    then show ?thesis by (auto simp: e dict_keys_def)
  next
    case False
    with Cons.prems have ne: "hash k \<noteq> hash key" by (simp add: e dict_keys_def)
    from Cons.prems have "\<forall>k\<in>set (dict_keys d). k \<noteq> key \<longrightarrow> hash k \<noteq> hash key"
      by (simp add: dict_keys_def)
    from Cons.IH[OF this] obtain d' where
      d': "insertdict hash eq d key v = Inr d'" "map_of d' = (map_of d)(key \<mapsto> v)"
          "set (dict_keys d') = insert key (set (dict_keys d))" by blast
    have "insertdict hash eq (e # d) key v = Inr ((k, w) # d')"
      using False ne d'(1) by (simp add: e)
    moreover have "map_of ((k, w) # d') = (map_of (e # d))(key \<mapsto> v)"
      using False d'(2) by (auto simp: e)
    moreover have "set (dict_keys ((k, w) # d')) = insert key (set (dict_keys (e # d)))"
      using d'(3) by (auto simp: e dict_keys_def)
    ultimately show ?thesis by blast
  qed
qed

lemma getitem_no_collision:
  assumes "\<forall>k\<in>set (dict_keys d). k \<noteq> key \<longrightarrow> hash k \<noteq> hash key"
  shows "\<exists>d'. getitem hash eq d key = Inr (weight d key, d') \<and>
           map_of d' = (map_of d)(key \<mapsto> weight d key) \<and>
           set (dict_keys d') = insert key (set (dict_keys d))"
proof (cases "map_of d key")
  case None
  from insertdict_no_collision[OF assms, of eq 0] obtain d' where
    d': "insertdict hash eq d key 0 = Inr d'" "map_of d' = (map_of d)(key \<mapsto> 0)"
        "set (dict_keys d') = insert key (set (dict_keys d))" by blast
  then show ?thesis using None
    by (simp add: getitem_def setitem_def lookdict_no_collision[OF assms] weight_def)
next
  case (Some v)
  then have "key \<in> set (dict_keys d)" using map_of_None_iff_keys[of d key] by simp
  then have "insert key (set (dict_keys d)) = set (dict_keys d)" by auto
  moreover have "(map_of d)(key \<mapsto> v) = map_of d" using Some by (simp add: fun_upd_idem)
  ultimately show ?thesis using Some
    by (simp add: getitem_def lookdict_no_collision[OF assms] weight_def)
qed

lemma setitem_no_collision:
  assumes "\<forall>k\<in>set (dict_keys d). k \<noteq> key \<longrightarrow> hash k \<noteq> hash key"
  shows "\<exists>d'. setitem hash eq d key v = Inr d' \<and> map_of d' = (map_of d)(key \<mapsto> v) \<and>
           set (dict_keys d') = insert key (set (dict_keys d))"
  using insertdict_no_collision[OF assms] by (simp add: setitem_def)

text \<open>Replacing the dict of an object leaves all payloads, and so all hashes, as they are.\<close>

lemma data_update_dict: "data ((s[r := (s ! r)\<lparr>dict := d\<rparr>]) ! k) = data (s ! k)"
proof (cases "r < length s")
  case True
  then show ?thesis by (cases "k = r") simp_all
next
  case False
  then have "s[r := (s ! r)\<lparr>dict := d\<rparr>] = s" by (simp add: list_update_beyond)
  then show ?thesis by simp
qed

lemma hash_update_dict:
  "MarkovNode_hash hash (s[r := (s ! r)\<lparr>dict := d\<rparr>]) = MarkovNode_hash hash s"
  by (rule ext) (simp add: MarkovNode_hash_def data_update_dict)

lemma map_data_update_dict: "map data (s[r := (s ! r)\<lparr>dict := d\<rparr>]) = map data s"
  by (simp add: list_eq_iff_nth_eq data_update_dict)

lemma inc_no_collision:
  assumes find: "MarkovNode_find s nodes cd True = (Inr child, nodes1, s1)"
    and self: "self < length s1"
    and child: "data (s1 ! child) = cd"
    and nc: "\<forall>k\<in>set (dict_keys (dict (s1 ! self))).
               k \<noteq> child \<longrightarrow> hash (data (s1 ! k)) \<noteq> hash cd"
  shows "\<exists>d3. MarkovNode_inc hash depth s self nodes cd a =
              (Inr child, nodes1, s1[self := (s1 ! self)\<lparr>dict := d3\<rparr>]) \<and>
           map_of d3 =
             (map_of (dict (s1 ! self)))(child \<mapsto> weight (dict (s1 ! self)) child + a) \<and>
           set (dict_keys d3) = insert child (set (dict_keys (dict (s1 ! self))))"
proof -
  let ?h = "MarkovNode_hash hash s1" and ?D = "dict (s1 ! self)"
  have nc1: "\<forall>k\<in>set (dict_keys ?D). k \<noteq> child \<longrightarrow> ?h k \<noteq> ?h child"
    using nc child by (simp add: MarkovNode_hash_def)
  from getitem_no_collision[OF nc1, of "MarkovNode_eq depth hash s1"] obtain d2 where
    d2: "getitem ?h (MarkovNode_eq depth hash s1) ?D child = Inr (weight ?D child, d2)"
        "map_of d2 = (map_of ?D)(child \<mapsto> weight ?D child)"
        "set (dict_keys d2) = insert child (set (dict_keys ?D))" by blast
  let ?s2 = "s1[self := (s1 ! self)\<lparr>dict := d2\<rparr>]"
  have s2_self: "dict (?s2 ! self) = d2" using self by simp
  have h2: "MarkovNode_hash hash ?s2 = ?h" by (rule hash_update_dict)
  have nc2: "\<forall>k\<in>set (dict_keys d2). k \<noteq> child \<longrightarrow> ?h k \<noteq> ?h child"
    using nc1 d2(3) by auto
  from setitem_no_collision[OF nc2, of "MarkovNode_eq depth hash ?s2" "weight ?D child + a"]
  obtain d3 where
    d3: "setitem ?h (MarkovNode_eq depth hash ?s2) d2 child (weight ?D child + a) = Inr d3"
        "map_of d3 = (map_of d2)(child \<mapsto> weight ?D child + a)"
        "set (dict_keys d3) = insert child (set (dict_keys d2))" by blast
  have s3: "?s2[self := (?s2 ! self)\<lparr>dict := d3\<rparr>] = s1[self := (s1 ! self)\<lparr>dict := d3\<rparr>]"
    using self by simp
  have "MarkovNode_inc hash depth s self nodes cd a =
      (Inr child, nodes1, s1[self := (s1 ! self)\<lparr>dict := d3\<rparr>])"
    unfolding MarkovNode_inc_def find
    by (simp add: d2(1) Let_def h2 s2_self d3(1) s3 del: list_update_overwrite)
  moreover have "map_of d3 = (map_of ?D)(child \<mapsto> weight ?D child + a)"
    using d3(2) d2(2) by simp
  moreover have "set (dict_keys d3) = insert child (set (dict_keys ?D))"
    using d3(3) d2(3) by simp
  ultimately show ?thesis by blast
qed

text \<open>
  Claim C4, as stated, fails: an edge that already has a weight keeps it. From a node
  \<^verbatim>\<open>'a'\<close> whose edge to itself has weight 5, \<^verbatim>\<open>inc\<close> with 1 and then with 2 leaves
  the weight 8, not 3.
\<close>

theorem inc_twice_keeps_old_weight:
  "MarkovNode_inc example_hash 1000 [MarkovNode_init ''a''] 0 [0] ''a'' 5 =
     (Inr 0, [0], [\<lparr>data = ''a'', dict = [(0, 5)]\<rparr>]) \<and>
   MarkovNode_inc example_hash 1000 [\<lparr>data = ''a'', dict = [(0, 5)]\<rparr>] 0 [0] ''a'' 1 =
     (Inr 0, [0], [\<lparr>data = ''a'', dict = [(0, 6)]\<rparr>]) \<and>
   MarkovNode_inc example_hash 1000 [\<lparr>data = ''a'', dict = [(0, 6)]\<rparr>] 0 [0] ''a'' 2 =
     (Inr 0, [0], [\<lparr>data = ''a'', dict = [(0, 8)]\<rparr>]) \<and>
   weight (dict ([\<lparr>data = ''a'', dict = [(0, 8)]\<rparr>] ! 0)) 0 \<noteq> 1 + 2"
  by (simp add: MarkovNode_inc_def MarkovNode_find_def getitem_def setitem_def
      MarkovNode_init_def weight_def)

text \<open>
  Claim C4, amended. Let \<^verbatim>\<open>inc\<close> be called on a node \<open>self\<close> with a child payload
  whose node \<open>childNode\<close> is the one \<^verbatim>\<open>find\<close> returns, and let no other key of
  \<open>self\<close> have a payload with the hash of the child payload. Then the call with \<open>a1\<close>
  followed by the call with \<open>a2\<close> both return \<open>childNode\<close>, and the weight of the
  edge from \<open>self\<close> to \<open>childNode\<close> is afterwards its weight before (0 when there was
  no edge) plus \<open>a1 + a2\<close>.
\<close>

theorem inc_twice_adds:
  assumes self: "self < length s" and nodes: "valid_refs s nodes"
    and keys: "valid_refs s (dict_keys (dict (s ! self)))"
    and find: "MarkovNode_find s nodes childData True = (Inr childNode, nodes1, s1)"
    and nc: "\<forall>k\<in>set (dict_keys (dict (s ! self))).
               k \<noteq> childNode \<longrightarrow> hash (data (s ! k)) \<noteq> hash childData"
  shows "\<exists>s2 s3.
           MarkovNode_inc hash depth s self nodes childData a1 = (Inr childNode, nodes1, s2) \<and>
           MarkovNode_inc hash depth s2 self nodes1 childData a2 = (Inr childNode, nodes1, s3) \<and>
           weight (dict (s3 ! self)) childNode = weight (dict (s ! self)) childNode + a1 + a2"
proof -
  let ?D = "dict (s ! self)"
  from find_result[OF find nodes] have
    c: "childNode < length s1" "data (s1 ! childNode) = childData"
       "List.find (\<lambda>node. data (s1 ! node) = childData) nodes1 = Some childNode"
       "valid_refs s1 nodes1" "length s \<le> length s1" "\<forall>k<length s. s1 ! k = s ! k"
    by auto
  have self1: "self < length s1" using self c(5) by simp
  have D1: "dict (s1 ! self) = ?D" using self c(6) by simp
  have nc1: "\<forall>k\<in>set (dict_keys (dict (s1 ! self))).
      k \<noteq> childNode \<longrightarrow> hash (data (s1 ! k)) \<noteq> hash childData"
    using nc keys c(6) by (simp add: D1 valid_refs_def)
  from inc_no_collision[OF find self1 c(2) nc1, of depth a1] obtain d3 where
    d3: "MarkovNode_inc hash depth s self nodes childData a1 =
           (Inr childNode, nodes1, s1[self := (s1 ! self)\<lparr>dict := d3\<rparr>])"
        "map_of d3 = (map_of ?D)(childNode \<mapsto> weight ?D childNode + a1)"
        "set (dict_keys d3) = insert childNode (set (dict_keys ?D))"
    by (auto simp: D1)
  let ?s2 = "s1[self := (s1 ! self)\<lparr>dict := d3\<rparr>]"
  have data2: "\<forall>k<length s1. data (?s2 ! k) = data (s1 ! k)"
    by (simp add: data_update_dict)
  have find2: "MarkovNode_find ?s2 nodes1 childData True = (Inr childNode, nodes1, ?s2)"
    by (rule find_again[OF c(3,4) data2])
  have self2: "self < length ?s2" using self1 by simp
  have D2: "dict (?s2 ! self) = d3" using self1 by simp
  have child2: "data (?s2 ! childNode) = childData" using c(2) by (simp add: data_update_dict)
  have nc2: "\<forall>k\<in>set (dict_keys (dict (?s2 ! self))).
      k \<noteq> childNode \<longrightarrow> hash (data (?s2 ! k)) \<noteq> hash childData"
    using nc1 d3(3) by (simp add: D2 D1 data_update_dict)
  from inc_no_collision[OF find2 self2 child2 nc2, of depth a2] obtain d5 where
    d5: "MarkovNode_inc hash depth ?s2 self nodes1 childData a2 =
           (Inr childNode, nodes1, ?s2[self := (?s2 ! self)\<lparr>dict := d5\<rparr>])"
        "map_of d5 = (map_of d3)(childNode \<mapsto> weight d3 childNode + a2)"
    by (auto simp: D2)
  let ?s3 = "?s2[self := (?s2 ! self)\<lparr>dict := d5\<rparr>]"
  have "dict (?s3 ! self) = d5" using self1 by simp
  moreover have "weight d3 childNode = weight ?D childNode + a1"
    using d3(2) by (simp add: weight_def)
  ultimately have "weight (dict (?s3 ! self)) childNode = weight ?D childNode + a1 + a2"
    using d5(2) by (simp add: weight_def)
  with d3(1) d5(1) show ?thesis by blast
qed

theorem inc_twice_adds_witness:
  "(0::nat) < length [\<lparr>data = [], dict = [(1, 5)]\<rparr>, \<lparr>data = ''a'', dict = []\<rparr>] \<and>
   valid_refs [\<lparr>data = [], dict = [(1, 5)]\<rparr>, \<lparr>data = ''a'', dict = []\<rparr>] [0, 1] \<and>
   MarkovNode_find [\<lparr>data = [], dict = [(1, 5)]\<rparr>, \<lparr>data = ''a'', dict = []\<rparr>] [0, 1] ''b'' True =
     (Inr 2, [0, 1, 2],
      [\<lparr>data = [], dict = [(1, 5)]\<rparr>, \<lparr>data = ''a'', dict = []\<rparr>, \<lparr>data = ''b'', dict = []\<rparr>]) \<and>
   example_hash ''a'' \<noteq> example_hash ''b'' \<and>
   (\<exists>s2 s3.
      MarkovNode_inc example_hash 1000
        [\<lparr>data = [], dict = [(1, 5)]\<rparr>, \<lparr>data = ''a'', dict = []\<rparr>] 0 [0, 1] ''b'' 1 =
        (Inr 2, [0, 1, 2], s2) \<and>
      MarkovNode_inc example_hash 1000 s2 0 [0, 1, 2] ''b'' 2 = (Inr 2, [0, 1, 2], s3) \<and>
      weight (dict (s3 ! 0)) 2 = 0 + 1 + 2)"
proof -
  let ?s = "[\<lparr>data = [], dict = [(1, 5)]\<rparr>, \<lparr>data = ''a'', dict = []\<rparr>]"
  have h1: "(0::nat) < length ?s" by simp
  have h2: "valid_refs ?s [0, 1]" by (simp add: valid_refs_def)
  have h3: "valid_refs ?s (dict_keys (dict (?s ! 0)))"
    by (simp add: valid_refs_def dict_keys_def)
  have h4: "MarkovNode_find ?s [0, 1] ''b'' True =
      (Inr 2, [0, 1, 2], ?s @ [\<lparr>data = ''b'', dict = []\<rparr>])"
    by (simp add: MarkovNode_find_def MarkovNode_init_def)
  have ne: "example_hash ''a'' \<noteq> example_hash ''b''" by (simp add: example_hash_def)
  have h5: "\<forall>k\<in>set (dict_keys (dict (?s ! 0))).
      k \<noteq> 2 \<longrightarrow> example_hash (data (?s ! k)) \<noteq> example_hash ''b''"
    using ne by (simp add: dict_keys_def)
  have w: "weight (dict (?s ! 0)) 2 = 0" by (simp add: weight_def)
  from inc_twice_adds[OF h1 h2 h3 h4 h5, of 1000 1 2] h1 h2 h4 ne w
  show ?thesis by simp
qed

subsection \<open>Nodes as dict keys\<close>

lemma int_hash_minus_1: "int_hash (- 1) = - 2"
  by (simp add: int_hash_def)

lemma int_hash_minus_2: "int_hash (- 2) = - 2"
  by (simp add: int_hash_def)

lemma MarkovNode_eq_1000:
  "MarkovNode_eq 1000 hash s a b =
     dict_equal (MarkovNode_hash hash s) (MarkovNode_eq 999 hash s) (dict (s ! a)) (dict (s ! b))"
proof -
  have "(1000::nat) = Suc 999" by simp
  then show ?thesis by (simp only: MarkovNode_eq.simps)
qed

text \<open>
  Claim C5 says that two nodes are the same dict key exactly when their payloads are
  equal. The code derives the hash from the payload but inherits \<^verbatim>\<open>dict.__eq__\<close>,
  which compares the edges. Evaluated on two inputs:
  \<^item> Payloads \<open>- 1\<close> and \<open>- 2\<close> have the same hash. From a start node \<open>0\<close>,
    \<^verbatim>\<open>inc\<close> with child payload \<open>- 1\<close> and then with child payload \<open>- 2\<close>
    returns the new node with payload \<open>- 2\<close>, but counts the second transition on the
    edge to the node with payload \<open>- 1\<close>: the two nodes, both without edges, are one key.
  \<^item> Two nodes with the same payload \<^verbatim>\<open>'a'\<close>, one without edges and one with an edge:
    their hashes agree, \<^verbatim>\<open>==\<close> is false, and the second is not found in a dict that
    holds the first.
\<close>

theorem node_keys_compare_edges:
  "MarkovNode_inc int_hash 1000 [MarkovNode_init 0] 0 [0] (- 1) 1 =
     (Inr 1, [0, 1], [\<lparr>data = 0, dict = [(1, 1)]\<rparr>, \<lparr>data = - 1, dict = []\<rparr>]) \<and>
   MarkovNode_inc int_hash 1000
       [\<lparr>data = 0, dict = [(1, 1)]\<rparr>, \<lparr>data = - 1, dict = []\<rparr>] 0 [0, 1] (- 2) 1 =
     (Inr 2, [0, 1, 2],
      [\<lparr>data = 0, dict = [(1, 2)]\<rparr>, \<lparr>data = - 1, dict = []\<rparr>, \<lparr>data = - 2, dict = []\<rparr>]) \<and>
   MarkovNode_hash example_hash
       [\<lparr>data = ''a'', dict = []\<rparr>, \<lparr>data = ''a'', dict = [(0, 1)]\<rparr>] 0 =
     MarkovNode_hash example_hash
       [\<lparr>data = ''a'', dict = []\<rparr>, \<lparr>data = ''a'', dict = [(0, 1)]\<rparr>] 1 \<and>
   MarkovNode_eq 1000 example_hash
       [\<lparr>data = ''a'', dict = []\<rparr>, \<lparr>data = ''a'', dict = [(0, 1)]\<rparr>] 0 1 = Inr False \<and>
   lookdict
       (MarkovNode_hash example_hash [\<lparr>data = ''a'', dict = []\<rparr>, \<lparr>data = ''a'', dict = [(0, 1)]\<rparr>])
       (MarkovNode_eq 1000 example_hash
          [\<lparr>data = ''a'', dict = []\<rparr>, \<lparr>data = ''a'', dict = [(0, 1)]\<rparr>])
       [(0, 5)] 1 = Inr None"
  by (simp add: MarkovNode_inc_def MarkovNode_find_def getitem_def setitem_def
      MarkovNode_init_def MarkovNode_hash_def int_hash_minus_1 int_hash_minus_2
      MarkovNode_eq_1000 dict_equal_def)

subsection \<open>Payloads identify nodes\<close>

lemma inc_keeps_data:
  assumes "MarkovNode_inc hash depth s self nodes d a = (r, nodes', s')"
    and "MarkovNode_find s nodes d True = (r0, nodes1, s1)"
  shows "nodes' = nodes1 \<and> map data s' = map data s1"
  using assms
  by (auto simp: MarkovNode_inc_def Let_def map_data_update_dict
      simp del: list_update_overwrite split: sum.splits prod.splits)

lemma find_keeps_inv:
  assumes "graph_inv s nodes" "MarkovNode_find s nodes d True = (r, nodes', s')"
  shows "graph_inv s' nodes'"
proof (cases "List.find (\<lambda>node. data (s ! node) = d) nodes")
  case None
  then have "\<forall>k<length s. data (s ! k) \<noteq> d"
    using assms(1) by (auto simp: find_None_iff graph_inv_def)
  then have "d \<notin> set (map data s)" by (auto simp: in_set_conv_nth)
  then show ?thesis using assms None
    by (auto simp: MarkovNode_find_def Let_def graph_inv_def MarkovNode_init_def)
next
  case (Some node)
  then show ?thesis using assms by (auto simp: MarkovNode_find_def)
qed

lemma inc_keeps_inv:
  assumes "graph_inv s nodes" "MarkovNode_inc hash depth s self nodes d a = (r, nodes', s')"
  shows "graph_inv s' nodes'"
proof -
  obtain r0 nodes1 s1 where f: "MarkovNode_find s nodes d True = (r0, nodes1, s1)"
    by (cases "MarkovNode_find s nodes d True") auto
  from find_keeps_inv[OF assms(1) f] have inv1: "graph_inv s1 nodes1" .
  from inc_keeps_data[OF assms(2) f] have eq: "nodes' = nodes1" "map data s' = map data s1"
    by auto
  from eq(2) have "length s' = length s1" by (metis length_map)
  with inv1 eq show ?thesis by (simp add: graph_inv_def)
qed

lemma reachable_inv: "reachable hash depth start st \<Longrightarrow> graph_inv (fst st) (snd st)"
proof (induction rule: reachable.induct)
  case start
  show ?case by (simp add: graph_inv_def)
next
  case (find s nodes d r nodes' s')
  then show ?case using find_keeps_inv by fastforce
next
  case (inc s nodes self d increment r nodes' s')
  then show ?case using inc_keeps_inv by fastforce
qed

text \<open>
  Claim C9. In every state that arises from a list with one start node by calls of
  \<^verbatim>\<open>find\<close> with \<^verbatim>\<open>add=True\<close> and of \<^verbatim>\<open>inc\<close> (whether they return or raise),
  the node list holds no node twice and no two nodes of it have equal payloads.
\<close>

theorem payloads_identify_nodes:
  assumes "reachable hash depth start (s, nodes)"
  shows "distinct nodes \<and>
         (\<forall>a\<in>set nodes. \<forall>b\<in>set nodes. data (s ! a) = data (s ! b) \<longrightarrow> a = b)"
proof -
  from reachable_inv[OF assms] have inv: "nodes = [0..<length s]" "distinct (map data s)"
    by (simp_all add: graph_inv_def)
  have "a = b" if "a < length s" "b < length s" "data (s ! a) = data (s ! b)" for a b
    using that inv(2) by (auto simp: distinct_conv_nth)
  then show ?thesis using inv(1) by auto
qed

theorem payloads_identify_nodes_witness:
  "reachable example_hash 1000 []
     ([\<lparr>data = [], dict = [(1, 1)]\<rparr>, \<lparr>data = ''a'', dict = []\<rparr>], [0, 1]) \<and>
   distinct [0, 1 :: nat] \<and>
   data ([\<lparr>data = [], dict = [(1, 1)]\<rparr>, \<lparr>data = ''a'', dict = []\<rparr>] ! 0) \<noteq>
   data ([\<lparr>data = [], dict = [(1, 1)]\<rparr>, \<lparr>data = ''a'', dict = []\<rparr>] ! 1)"
proof -
  let ?s = "[\<lparr>data = [], dict = [(1, 1)]\<rparr>, \<lparr>data = ''a'', dict = []\<rparr>]"
  have step: "MarkovNode_inc example_hash 1000 [MarkovNode_init []] 0 [0] ''a'' 1 =
      (Inr 1, [0, 1], ?s)"
    by (simp add: MarkovNode_inc_def MarkovNode_find_def getitem_def setitem_def
        MarkovNode_init_def)
  have r: "reachable example_hash 1000 [] (?s, [0, 1])"
    by (rule reachable.inc[OF reachable.start _ step]) simp
  from payloads_identify_nodes[OF r] r show ?thesis by simp
qed

subsection \<open>The trained graph of the test cell\<close>

text \<open>
  Claim C1. Training the string \<^verbatim>\<open>'abababbbabababbbababaaaababababababa\n'\<close>
  character by character from the list \<^verbatim>\<open>[MarkovNode('')]\<close> returns, leaves exactly
  four nodes with the payloads \<^verbatim>\<open>''\<close>, \<^verbatim>\<open>'a'\<close>, \<^verbatim>\<open>'b'\<close>, \<^verbatim>\<open>'\n'\<close>, and the
  weight of every edge is the number of times its transition occurs in the string; the
  node \<^verbatim>\<open>'a'\<close> has the weights 14 to \<^verbatim>\<open>'b'\<close>, 3 to \<^verbatim>\<open>'a'\<close> and 1 to \<^verbatim>\<open>'\n'\<close>.
  The hashes of the three payloads that become dict keys are taken to be different.
\<close>

theorem training_counts_transitions:
  assumes "hash ''a'' \<noteq> hash ''b''" "hash ''a'' \<noteq> hash [CHR 0x0A]"
    "hash ''b'' \<noteq> hash [CHR 0x0A]"
  shows "test_cell hash depth =
           (Inr 3, [0, 1, 2, 3],
            [\<lparr>data = [], dict = [(1, 1)]\<rparr>,
             \<lparr>data = ''a'', dict = [(2, 14), (1, 3), (3, 1)]\<rparr>,
             \<lparr>data = ''b'', dict = [(1, 14), (2, 4)]\<rparr>,
             \<lparr>data = [CHR 0x0A], dict = []\<rparr>]) \<and>
         (case test_cell hash depth of
            (r, nodes, s) \<Rightarrow>
              \<forall>a\<in>set nodes. \<forall>b\<in>set nodes.
                weight (dict (s ! a)) b =
                int (count_list (transitions [] training) (data (s ! a), data (s ! b))))"
proof -
  have run: "test_cell hash depth =
      (Inr 3, [0, 1, 2, 3],
       [\<lparr>data = [], dict = [(1, 1)]\<rparr>,
        \<lparr>data = ''a'', dict = [(2, 14), (1, 3), (3, 1)]\<rparr>,
        \<lparr>data = ''b'', dict = [(1, 14), (2, 4)]\<rparr>,
        \<lparr>data = [CHR 0x0A], dict = []\<rparr>])"
    using assms assms[symmetric]
    by (simp add: test_cell_def training_def MarkovNode_inc_def MarkovNode_find_def
        getitem_def setitem_def MarkovNode_hash_def MarkovNode_init_def Let_def)
  show ?thesis
    unfolding run by (simp add: weight_def transitions_def training_def)
qed

theorem training_counts_transitions_witness:
  "example_hash ''a'' \<noteq> example_hash ''b'' \<and>
   example_hash ''a'' \<noteq> example_hash [CHR 0x0A] \<and>
   example_hash ''b'' \<noteq> example_hash [CHR 0x0A] \<and>
   test_cell example_hash 1000 =
     (Inr 3, [0, 1, 2, 3],
      [\<lparr>data = [], dict = [(1, 1)]\<rparr>,
       \<lparr>data = ''a'', dict = [(2, 14), (1, 3), (3, 1)]\<rparr>,
       \<lparr>data = ''b'', dict = [(1, 14), (2, 4)]\<rparr>,
       \<lparr>data = [CHR 0x0A], dict = []\<rparr>])"
proof -
  have h1: "example_hash ''a'' \<noteq> example_hash ''b''" by (simp add: example_hash_def)
  have h2: "example_hash ''a'' \<noteq> example_hash [CHR 0x0A]" by (simp add: example_hash_def)
  have h3: "example_hash ''b'' \<noteq> example_hash [CHR 0x0A]" by (simp add: example_hash_def)
  from training_counts_transitions[OF h1 h2 h3, of 1000] h1 h2 h3 show ?thesis by blast
qed

subsection \<open>The random walk\<close>

lemma walk_ends_terminal:
  "walk s rnd i path \<Longrightarrow> path \<noteq> [] \<and> dict (s ! last path) = []"
  by (induction s rnd i path rule: walk.induct) auto

lemma iter_of_walk:
  "walk s rnd i path \<Longrightarrow>
   MarkovNode_iter s rnd i (hd path) out = Some (out @ map (\<lambda>r. data (s ! r)) path, None)"
proof (induction s rnd i path arbitrary: out rule: walk.induct)
  case (1 s rnd i)
  then show ?case by simp
next
  case (2 s rnd i node)
  then show ?case by (subst MarkovNode_iter.simps) simp
next
  case (3 s rnd i node node' path)
  then have "MarkovNode_iter s rnd (i + 1) node' (out @ [data (s ! node)]) =
      Some ((out @ [data (s ! node)]) @ map (\<lambda>r. data (s ! r)) (node' # path), None)"
    by simp
  with 3(2) show ?case by (subst MarkovNode_iter.simps) simp
qed

lemma walk_of_iter_aux:
  assumes "MarkovNode_iter s rnd i node out = Some y"
  shows "snd y = None \<longrightarrow>
     (\<exists>path. walk s rnd i path \<and> hd path = node \<and>
        fst y = out @ map (\<lambda>r. data (s ! r)) path)"
proof (rule MarkovNode_iter.raw_induct[where P = "\<lambda>s rnd i node out y. snd y = None \<longrightarrow>
     (\<exists>path. walk s rnd i path \<and> hd path = node \<and>
        fst y = out @ map (\<lambda>r. data (s ! r)) path)",
     OF _ assms], goal_cases)
  case (1 iter s rnd i node out y)
  show ?case
  proof (cases "dict (s ! node) = []")
    case True
    with 1(2) have "y = (out @ [data (s ! node)], None)" by simp
    then have "walk s rnd i [node] \<and> hd [node] = node \<and>
        fst y = out @ map (\<lambda>r. data (s ! r)) [node]"
      using True by simp
    then show ?thesis by blast
  next
    case False
    show ?thesis
    proof (cases "WeightMap_call (rnd i) (dict (s ! node))")
      case (Inl e)
      with False 1(2) show ?thesis by auto
    next
      case (Inr node')
      with False 1(2) have "iter s rnd (i + 1) node' (out @ [data (s ! node)]) = Some y"
        by simp
      note ih = 1(1)[OF this]
      show ?thesis
      proof
        assume "snd y = None"
        with ih obtain path where
          p: "walk s rnd (i + 1) path" "hd path = node'"
             "fst y = (out @ [data (s ! node)]) @ map (\<lambda>r. data (s ! r)) path"
          by blast
        from p(1) obtain m rest where path: "path = m # rest" by (cases path) auto
        with p(2) have "m = node'" by simp
        with p path False Inr have "walk s rnd i (node # path) \<and> hd (node # path) = node \<and>
           fst y = out @ map (\<lambda>r. data (s ! r)) (node # path)" by simp
        then show "\<exists>path. walk s rnd i path \<and> hd path = node \<and>
           fst y = out @ map (\<lambda>r. data (s ! r)) path" by blast
      qed
    qed
  qed
qed

lemma walk_of_iter:
  "MarkovNode_iter s rnd i node out = Some (ys, None) \<Longrightarrow>
   \<exists>path. walk s rnd i path \<and> hd path = node \<and> ys = out @ map (\<lambda>r. data (s ! r)) path"
  using walk_of_iter_aux[of s rnd i node out "(ys, None)"] by simp

lemma sum_list_all_zero: "\<forall>w\<in>set ws. w = (0::int) \<Longrightarrow> sum_list ws = 0"
  by (induction ws) auto

text \<open>
  Claim C2. The generator started on \<open>self\<close> ends without an exception, having yielded
  \<open>ys\<close>, exactly when the draws lead from \<open>self\<close> along a walk to a node without
  entries and \<open>ys\<close> are the payloads of the nodes of the walk; the last value yielded is
  then the payload of that last node. When \<open>self\<close> has no entries, it yields the single
  value \<^verbatim>\<open>self.data\<close>.
\<close>

theorem generate_ends_with_terminal_payload:
  "(MarkovNode_iter s rnd i self [] = Some (ys, None) \<longleftrightarrow>
      (\<exists>path. walk s rnd i path \<and> hd path = self \<and> ys = map (\<lambda>r. data (s ! r)) path)) \<and>
   (walk s rnd i path \<longrightarrow>
      path \<noteq> [] \<and> dict (s ! last path) = [] \<and>
      last (map (\<lambda>r. data (s ! r)) path) = data (s ! last path)) \<and>
   (dict (s ! self) = [] \<longrightarrow> MarkovNode_iter s rnd i self [] = Some ([data (s ! self)], None))"
proof -
  have a: "MarkovNode_iter s rnd i self [] = Some (ys, None) \<longleftrightarrow>
      (\<exists>path. walk s rnd i path \<and> hd path = self \<and> ys = map (\<lambda>r. data (s ! r)) path)"
  proof
    assume "MarkovNode_iter s rnd i self [] = Some (ys, None)"
    from walk_of_iter[OF this]
    show "\<exists>path. walk s rnd i path \<and> hd path = self \<and> ys = map (\<lambda>r. data (s ! r)) path"
      by simp
  next
    assume "\<exists>path. walk s rnd i path \<and> hd path = self \<and> ys = map (\<lambda>r. data (s ! r)) path"
    then obtain path where "walk s rnd i path" "hd path = self"
      "ys = map (\<lambda>r. data (s ! r)) path" by blast
    with iter_of_walk[of s rnd i path "[]"]
    show "MarkovNode_iter s rnd i self [] = Some (ys, None)" by simp
  qed
  have b: "walk s rnd i path \<longrightarrow>
      path \<noteq> [] \<and> dict (s ! last path) = [] \<and>
      last (map (\<lambda>r. data (s ! r)) path) = data (s ! last path)"
    using walk_ends_terminal[of s rnd i path] by (auto simp: last_map)
  have c: "dict (s ! self) = [] \<longrightarrow>
      MarkovNode_iter s rnd i self [] = Some ([data (s ! self)], None)"
    by (subst MarkovNode_iter.simps) simp
  from a b c show ?thesis by blast
qed

theorem generate_ends_with_terminal_payload_witness:
  "walk [\<lparr>data = ''x'', dict = [(1, 1)]\<rparr>, \<lparr>data = ''y'', dict = []\<rparr>] fair_draws 0 [0, 1] \<and>
   MarkovNode_iter [\<lparr>data = ''x'', dict = [(1, 1)]\<rparr>, \<lparr>data = ''y'', dict = []\<rparr>] fair_draws 0 0 [] =
     Some ([''x'', ''y''], None) \<and>
   dict ([\<lparr>data = ''x'', dict = [(1, 1)]\<rparr>, \<lparr>data = ''y'', dict = []\<rparr>] ! 1) = [] \<and>
   MarkovNode_iter [\<lparr>data = ''x'', dict = [(1, 1)]\<rparr>, \<lparr>data = ''y'', dict = []\<rparr>] fair_draws 0 1 [] =
     Some ([''y''], None)"
proof -
  let ?s = "[\<lparr>data = ''x'', dict = [(1, 1)]\<rparr>, \<lparr>data = ''y'', dict = []\<rparr>]"
  have call: "WeightMap_call (fair_draws 0) [(1 :: nat, 1)] = Inr 1"
    using float_overflow_bound_above[of 1]
    by (simp add: call_cases dict_values_def dict_keys_def bisect_stop)
  have w: "walk ?s fair_draws 0 [0, 1]" using call by simp
  have t: "dict (?s ! 1) = []" by simp
  have "\<exists>path. walk ?s fair_draws 0 path \<and> hd path = 0 \<and>
      [''x'', ''y''] = map (\<lambda>r. data (?s ! r)) path"
    using w by (intro exI[of _ "[0, 1]"]) simp
  with generate_ends_with_terminal_payload[of ?s fair_draws 0 0 "[''x'', ''y'']" "[0, 1]"]
  have run: "MarkovNode_iter ?s fair_draws 0 0 [] = Some ([''x'', ''y''], None)" by blast
  from generate_ends_with_terminal_payload[of ?s fair_draws 0 1 "[]" "[]"] t
  have "MarkovNode_iter ?s fair_draws 0 1 [] = Some ([''y''], None)" by simp
  with w run t show ?thesis by blast
qed

text \<open>
  Claim C7. When the walk stands at a node whose dict is not empty but holds only zero
  weights, having yielded \<open>out\<close> so far, the generator yields the payload of that node
  and then ends with the \<^verbatim>\<open>ValueError\<close> that \<^verbatim>\<open>random.choices\<close> raises: the
  exception leaves the generator, the node is not treated as an end of the walk.
\<close>

theorem zero_weights_raise:
  assumes "dict (s ! node) \<noteq> []" "\<forall>w\<in>set (dict_values (dict (s ! node))). w = 0"
  shows "MarkovNode_iter s rnd i node out = Some (out @ [data (s ! node)], Some ValueError)"
proof -
  have "sum_list (dict_values (dict (s ! node))) = 0"
    using assms(2) by (rule sum_list_all_zero)
  then have "WeightMap_call (rnd i) (dict (s ! node)) = Inl ValueError"
    using assms(1) float_overflow_bound_pos by (simp add: call_cases)
  then show ?thesis using assms(1)
    by (subst MarkovNode_iter.simps) simp
qed

theorem zero_weights_raise_witness:
  "dict ([\<lparr>data = ''x'', dict = [(1, 1)]\<rparr>, \<lparr>data = ''y'', dict = [(0, 0)]\<rparr>] ! 1) \<noteq> [] \<and>
   dict_values (dict ([\<lparr>data = ''x'', dict = [(1, 1)]\<rparr>, \<lparr>data = ''y'', dict = [(0, 0)]\<rparr>] ! 1)) = [0] \<and>
   MarkovNode_iter [\<lparr>data = ''x'', dict = [(1, 1)]\<rparr>, \<lparr>data = ''y'', dict = [(0, 0)]\<rparr>]
     fair_draws 0 0 [] = Some ([''x'', ''y''], Some ValueError)"
proof -
  let ?s = "[\<lparr>data = ''x'', dict = [(1, 1)]\<rparr>, \<lparr>data = ''y'', dict = [(0, 0)]\<rparr>]"
  have h1: "dict (?s ! 1) \<noteq> []" by simp
  have v: "dict_values (dict (?s ! 1)) = [0]" by (simp add: dict_values_def)
  then have h2: "\<forall>w\<in>set (dict_values (dict (?s ! 1))). w = 0" by simp
  have call: "WeightMap_call (fair_draws 0) [(1 :: nat, 1)] = Inr 1"
    using float_overflow_bound_above[of 1]
    by (simp add: call_cases dict_values_def dict_keys_def bisect_stop)
  have step: "MarkovNode_iter ?s fair_draws 0 0 [] = MarkovNode_iter ?s fair_draws 1 1 [''x'']"
    using call by (subst MarkovNode_iter.simps) simp
  from zero_weights_raise[OF h1 h2, of fair_draws 1 "[''x'']"] step h1 v
  show ?thesis by simp
qed

end
